theory Spec2Isabelle
  imports Complex_Main
begin

section \<open>The issue scraper of run.py\<close>

text \<open>
  \<^verbatim>\<open>run.py\<close> walks a list of repositories, asks the hosting service for the issues of
  each and for the comments of every issue, flattens each issue into one record and
  collects the records in the list \<^verbatim>\<open>all_issues\<close>. The hosting service and the clock
  answer from a \<open>world\<close>; what the client's token constructor, the dataset library
  and \<^verbatim>\<open>time.sleep\<close> do with the values the program hands them is written out. Every
  call goes into a trace, with the answer it got.
\<close>

subsection \<open>Exceptions\<close>

text \<open>
  The only exception class the source names is \<^verbatim>\<open>RateLimitExceededException\<close>.
  \<^verbatim>\<open>TypeError\<close> is what iterating \<^verbatim>\<open>None\<close> raises, \<^verbatim>\<open>ValueError\<close> what \<^verbatim>\<open>time.sleep\<close>
  raises for a negative duration, \<^verbatim>\<open>AssertionError\<close> what a failed \<^verbatim>\<open>assert\<close> raises; any
  other class is \<open>OtherException\<close> with its name.
\<close>

datatype exn =
    RateLimitExceededException
  | TypeError
  | ValueError
  | AssertionError
  | OtherException string

subsection \<open>What the hosting service exposes\<close>

record datetime =
  year :: nat
  month :: nat
  day :: nat
  hour :: nat
  minute :: nat
  second :: nat

text \<open>
  An issue object as the client hands it out. \<open>get_comments\<close> is what iterating
  \<^verbatim>\<open>issue.get_comments()\<close> gives: the bodies of the comments, or the exception raised
  while they are fetched. \<open>closed_at\<close> is there because the service has it; the source
  never reads it.
\<close>

record issue =
  number :: int
  state :: string
  title :: string
  body :: "string option"
  created_at :: datetime
  closed_at :: "datetime option"
  get_comments :: "exn + string list"

text \<open>
  The lazily paginated issue list, as Python's iteration protocol sees it: every
  \<^verbatim>\<open>next()\<close> yields an issue, stops, or raises (a page request that fails).
\<close>

datatype issue_stream =
    StopIteration
  | Yield issue issue_stream
  | Raise exn

fun yielded :: "issue_stream \<Rightarrow> issue list" where
  "yielded StopIteration = []"
| "yielded (Yield i rest) = i # yielded rest"
| "yielded (Raise e) = []"

record repository =
  totalCount :: "exn + nat"
  get_issues :: issue_stream

subsection \<open>The flattened record\<close>

text \<open>The dictionary \<^verbatim>\<open>issue_data\<close> of lines 80 to 89, one field per key.\<close>

record issue_data =
  repo :: string
  number :: int
  state :: string
  title :: string
  body :: "string option"
  created_at :: string
  closed_at :: string
  comments :: string

text \<open>
  \<^verbatim>\<open>strftime("%m-%d-%Y %H:%M:%S")\<close>: zero-padded fields of fixed width. (For years
  below 1000 the C library decides whether \<^verbatim>\<open>%Y\<close> is padded; the service has no such
  dates.)
\<close>

definition digit :: "nat \<Rightarrow> char" where
  "digit n = ''0123456789'' ! (n mod 10)"

fun zfill :: "nat \<Rightarrow> nat \<Rightarrow> string" where
  "zfill 0 n = []"
| "zfill (Suc k) n = zfill k (n div 10) @ [digit n]"

definition strftime :: "datetime \<Rightarrow> string" where
  "strftime d =
     zfill 2 (month d) @ ''-'' @ zfill 2 (day d) @ ''-'' @ zfill 4 (year d) @ '' '' @
     zfill 2 (hour d) @ '':'' @ zfill 2 (minute d) @ '':'' @ zfill 2 (second d)"

text \<open>\<^verbatim>\<open>sep.join(xs)\<close> of Python.\<close>

fun join :: "string \<Rightarrow> string list \<Rightarrow> string" where
  "join sep [] = []"
| "join sep [x] = x"
| "join sep (x # y # ys) = x @ sep @ join sep (y # ys)"

definition delimiter :: string where
  "delimiter = ''<|||||>''"

definition make_issue_data :: "string \<Rightarrow> issue \<Rightarrow> string \<Rightarrow> issue_data" where
  "make_issue_data repo_name i cs =
     \<lparr> repo = repo_name,
       number = issue.number i,
       state = issue.state i,
       title = issue.title i,
       body = issue.body i,
       created_at = strftime (issue.created_at i),
       closed_at = strftime (issue.created_at i),
       comments = cs \<rparr>"

subsection \<open>Collaborators, trace and run state\<close>

text \<open>
  One event per collaborator call, with the answer the call got. \<open>NextIssueRaised\<close>
  is a \<^verbatim>\<open>next()\<close> on the issue list that raises.
\<close>

datatype event =
    AuthToken "string option" "exn option"
  | GetRepo string "exn option"
  | TotalCount "exn + nat"
  | NextIssueRaised exn
  | GetComments int "exn + string list"
  | SaveToDisk string "issue_data list" "exn option"
  | GetRateLimit "exn + int"
  | Sleep real
  | PushToHub "string option" "string option" "issue_data list"

text \<open>
  \<open>get_repo\<close>: the service's answer for a full repository name, the same whenever it
  is asked (a name listed twice is served twice the same way). \<open>get_rate_limit\<close> and
  \<open>time\<close> change while the run goes on, so they answer as a function of everything
  that has happened so far.
\<close>

record world =
  get_repo :: "string \<Rightarrow> exn + repository"
  get_rate_limit :: "event list \<Rightarrow> exn + int"
  time :: "event list \<Rightarrow> real"

record run =
  all_issues :: "issue_data list"
  trace :: "event list"

definition note_call :: "event \<Rightarrow> run \<Rightarrow> run" where
  "note_call ev s = s\<lparr>trace := trace s @ [ev]\<rparr>"

subsection \<open>What the libraries do with the program's own values\<close>

text \<open>
  \<^verbatim>\<open>Auth.Token(gh_token)\<close> of the client library asserts that the token is a \<^verbatim>\<open>str\<close> and
  that it is not empty; \<^verbatim>\<open>Github(auth=auth)\<close> only stores it. No request is made.
\<close>

definition auth_token :: "string option \<Rightarrow> exn option" where
  "auth_token t =
     (case t of
        None \<Rightarrow> Some AssertionError
      | Some v \<Rightarrow> if v = [] then Some AssertionError else None)"

text \<open>
  \<^verbatim>\<open>Dataset.from_list(all_issues).save_to_disk(ds_path)\<close>: the dataset library takes the
  columns from the rows, and writing a dataset that has no row raises
  \<^verbatim>\<open>SchemaInferenceError\<close>. A collection with a record is taken to be written.
  (\<^verbatim>\<open>Dataset.from_list\<close> alone, as on line 108, accepts the empty list.)
\<close>

definition save_to_disk :: "issue_data list \<Rightarrow> exn option" where
  "save_to_disk d = (if d = [] then Some (OtherException ''SchemaInferenceError'') else None)"

subsection \<open>The rate-limit handler (lines 93 to 106)\<close>

text \<open>Line 101: \<^verbatim>\<open>(rate_limit.raw_data["core"]["reset"] - time.time()) + 3\<close>.\<close>

definition wait_time :: "int \<Rightarrow> real \<Rightarrow> real" where
  "wait_time reset now = (real_of_int reset - now) + 3"

text \<open>
  Save the collection, ask for the reset time, sleep. Nothing in the handler is inside
  a \<^verbatim>\<open>try\<close>: what the save, the rate-limit request or \<^verbatim>\<open>time.sleep\<close> raise (the
  last one \<^verbatim>\<open>ValueError\<close> for a negative duration) leaves the function. The two
  \<^verbatim>\<open>logging.info\<close> calls have no effect on control flow.
\<close>

definition on_rate_limit :: "world \<Rightarrow> string \<Rightarrow> run \<Rightarrow> exn option \<times> run" where
  "on_rate_limit w path s =
     (let saved = save_to_disk (all_issues s);
          s1 = note_call (SaveToDisk path (all_issues s) saved) s
      in case saved of
           Some e \<Rightarrow> (Some e, s1)
         | None \<Rightarrow>
            (let rate_limit = get_rate_limit w (trace s1);
                 s2 = note_call (GetRateLimit rate_limit) s1
             in case rate_limit of
                  Inl e \<Rightarrow> (Some e, s2)
                | Inr reset \<Rightarrow>
                    (let wt = wait_time reset (time w (trace s2));
                         s3 = note_call (Sleep wt) s2
                     in if wt < 0 then (Some ValueError, s3) else (None, s3))))"

subsection \<open>The loops (lines 61 to 110)\<close>

text \<open>The body of the inner loop: the \<^verbatim>\<open>try\<close> block and its handler.\<close>

definition collect_issue :: "world \<Rightarrow> string \<Rightarrow> string \<Rightarrow> issue \<Rightarrow> run \<Rightarrow> exn option \<times> run" where
  "collect_issue w repo_name path i s =
     (let reply = get_comments i;
          s1 = note_call (GetComments (issue.number i) reply) s
      in case reply of
           Inr bodies \<Rightarrow>
             (None, s1\<lparr>all_issues :=
                all_issues s1 @ [make_issue_data repo_name i (join delimiter bodies)]\<rparr>)
         | Inl e \<Rightarrow>
             if e = RateLimitExceededException then on_rate_limit w path s1
             else (Some e, s1))"

text \<open>
  The inner \<^verbatim>\<open>for\<close>: the iterator is advanced outside the \<^verbatim>\<open>try\<close>, so what it raises
  leaves the function.
\<close>

fun collect_issues :: "world \<Rightarrow> string \<Rightarrow> string \<Rightarrow> issue_stream \<Rightarrow> run \<Rightarrow> exn option \<times> run" where
  "collect_issues w repo_name path StopIteration s = (None, s)"
| "collect_issues w repo_name path (Raise e) s = (Some e, note_call (NextIssueRaised e) s)"
| "collect_issues w repo_name path (Yield i rest) s =
     (case collect_issue w repo_name path i s of
        (Some e, s') \<Rightarrow> (Some e, s')
      | (None, s') \<Rightarrow> collect_issues w repo_name path rest s')"

text \<open>\<^verbatim>\<open>f"{gh_org}/{repo_name}"\<close> formats \<^verbatim>\<open>None\<close> as the text None.\<close>

definition str_of :: "string option \<Rightarrow> string" where
  "str_of x = (case x of None \<Rightarrow> ''None'' | Some v \<Rightarrow> v)"

definition full_name :: "string option \<Rightarrow> string \<Rightarrow> string" where
  "full_name gh_org repo_name = str_of gh_org @ ''/'' @ repo_name"

text \<open>The body of the outer loop, lines 64 to 106.\<close>

definition collect_repo ::
  "world \<Rightarrow> string option \<Rightarrow> string option \<Rightarrow> string \<Rightarrow> string \<Rightarrow> run \<Rightarrow> exn option \<times> run" where
  "collect_repo w gh_org gh_token path repo_name s =
     (let auth = auth_token gh_token;
          s1 = note_call (AuthToken gh_token auth) s
      in case auth of
           Some e \<Rightarrow> (Some e, s1)
         | None \<Rightarrow>
            (let r = get_repo w (full_name gh_org repo_name);
                 s2 = note_call (GetRepo (full_name gh_org repo_name)
                        (case r of Inl e \<Rightarrow> Some e | Inr _ \<Rightarrow> None)) s1
             in case r of
                  Inl e \<Rightarrow> (Some e, s2)
                | Inr rp \<Rightarrow>
                   (let s3 = note_call (TotalCount (totalCount rp)) s2
                    in case totalCount rp of
                         Inl e \<Rightarrow> (Some e, s3)
                       | Inr num_issues \<Rightarrow>
                           collect_issues w repo_name path (get_issues rp) s3)))"

fun collect_repos ::
  "world \<Rightarrow> string option \<Rightarrow> string option \<Rightarrow> string \<Rightarrow> string list \<Rightarrow> run \<Rightarrow> exn option \<times> run" where
  "collect_repos w gh_org gh_token path [] s = (None, s)"
| "collect_repos w gh_org gh_token path (repo_name # rest) s =
     (case collect_repo w gh_org gh_token path repo_name s of
        (Some e, s') \<Rightarrow> (Some e, s')
      | (None, s') \<Rightarrow> collect_repos w gh_org gh_token path rest s')"

definition start :: run where
  "start = \<lparr>all_issues = [], trace = []\<rparr>"

text \<open>
  The arguments are optional because the caller passes what the argument parser
  returned: iterating \<^verbatim>\<open>gh_repos = None\<close> raises \<^verbatim>\<open>TypeError\<close>. The result is the
  exception that left the function or the returned dataset, with the final state.
\<close>

definition extract_gh_repo_issues ::
  "world \<Rightarrow> string option \<Rightarrow> string list option \<Rightarrow> string option \<Rightarrow> string
     \<Rightarrow> (exn + issue_data list) \<times> run" where
  "extract_gh_repo_issues w gh_org gh_repos gh_token path =
     (case gh_repos of
        None \<Rightarrow> (Inl TypeError, start)
      | Some names \<Rightarrow>
          (case collect_repos w gh_org gh_token path names start of
             (Some e, s) \<Rightarrow> (Inl e, s)
           | (None, s) \<Rightarrow> (Inr (all_issues s), s)))"

subsection \<open>The command line (lines 17 to 25 and 113 to 119)\<close>

text \<open>
  The six options of \<^verbatim>\<open>parse_args\<close>. None is declared with \<^verbatim>\<open>required=True\<close> or
  with a default, so an option that is not given is \<^verbatim>\<open>None\<close> in the result, and a later
  occurrence of an option replaces an earlier one. \<open>--repos\<close> has \<^verbatim>\<open>nargs="+"\<close>: a
  first name and the rest. Command lines that the parser itself rejects (an unknown
  option, an option without its value) are outside this type.
\<close>

datatype cli_opt =
    Org string
  | Repos string "string list"
  | GhToken string
  | HfToken string
  | HfRepo string
  | DsPath string

record args =
  org :: "string option"
  repos :: "string list option"
  gh_token :: "string option"
  hf_token :: "string option"
  hf_repo :: "string option"
  ds_path :: "string option"

fun set_opt :: "args \<Rightarrow> cli_opt \<Rightarrow> args" where
  "set_opt a (Org v) = a\<lparr>org := Some v\<rparr>"
| "set_opt a (Repos v vs) = a\<lparr>repos := Some (v # vs)\<rparr>"
| "set_opt a (GhToken v) = a\<lparr>gh_token := Some v\<rparr>"
| "set_opt a (HfToken v) = a\<lparr>hf_token := Some v\<rparr>"
| "set_opt a (HfRepo v) = a\<lparr>hf_repo := Some v\<rparr>"
| "set_opt a (DsPath v) = a\<lparr>ds_path := Some v\<rparr>"

definition parse_args :: "cli_opt list \<Rightarrow> args" where
  "parse_args argv =
     foldl set_opt
       \<lparr>org = None, repos = None, gh_token = None,
        hf_token = None, hf_repo = None, ds_path = None\<rparr> argv"

text \<open>
  The script body. The checkpoint path is the literal of line 118, whatever
  \<open>--ds_path\<close> says. What \<^verbatim>\<open>push_to_hub\<close> answers is not modelled: nothing follows it.
\<close>

definition main :: "world \<Rightarrow> cli_opt list \<Rightarrow> exn option \<times> run" where
  "main w argv =
     (let a = parse_args argv
      in case extract_gh_repo_issues w (org a) (repos a) (gh_token a) ''./hf_repo_issues'' of
           (Inl e, s) \<Rightarrow> (Some e, s)
         | (Inr dataset, s) \<Rightarrow>
             (None, note_call (PushToHub (hf_repo a) (hf_token a) dataset) s))"

subsection \<open>Reading a trace\<close>

text \<open>The exception a logged call raised, if it raised.\<close>

fun raised :: "event \<Rightarrow> exn option" where
  "raised (AuthToken t r) = r"
| "raised (GetRepo n r) = r"
| "raised (TotalCount r) = (case r of Inl e \<Rightarrow> Some e | Inr _ \<Rightarrow> None)"
| "raised (NextIssueRaised e) = Some e"
| "raised (GetComments n r) = (case r of Inl e \<Rightarrow> Some e | Inr _ \<Rightarrow> None)"
| "raised (SaveToDisk p d r) = r"
| "raised (GetRateLimit r) = (case r of Inl e \<Rightarrow> Some e | Inr _ \<Rightarrow> None)"
| "raised (Sleep t) = (if t < 0 then Some ValueError else None)"
| "raised (PushToHub r t d) = None"

text \<open>A comment fetch that succeeded: the issue's record was appended.\<close>

fun fetched_ok :: "event \<Rightarrow> bool" where
  "fetched_ok (GetComments n (Inr bodies)) = True"
| "fetched_ok ev = False"

definition fetched :: "event list \<Rightarrow> nat" where
  "fetched t = length (filter fetched_ok t)"

text \<open>
  The issues the service yields for a listed repository, and the record of an issue
  whose comments were fetched.
\<close>

definition repo_issues :: "world \<Rightarrow> string option \<Rightarrow> string \<Rightarrow> issue list" where
  "repo_issues w gh_org repo_name =
     (case get_repo w (full_name gh_org repo_name) of
        Inl e \<Rightarrow> []
      | Inr rp \<Rightarrow> yielded (get_issues rp))"

definition bodies_of :: "issue \<Rightarrow> string list" where
  "bodies_of i = (case get_comments i of Inl e \<Rightarrow> [] | Inr bodies \<Rightarrow> bodies)"

definition issue_record :: "string \<Rightarrow> issue \<Rightarrow> issue_data" where
  "issue_record repo_name i = make_issue_data repo_name i (join delimiter (bodies_of i))"

definition fetchable :: "issue \<Rightarrow> bool" where
  "fetchable i = (case get_comments i of Inl e \<Rightarrow> False | Inr b \<Rightarrow> True)"

text \<open>
  A repository that is served without any error: the client is built, the repository,
  its issue count and its whole issue list are delivered, and so are the comments of
  every issue.
\<close>

fun complete :: "issue_stream \<Rightarrow> bool" where
  "complete StopIteration = True"
| "complete (Yield i rest) = complete rest"
| "complete (Raise e) = False"

definition well_served :: "world \<Rightarrow> string option \<Rightarrow> string option \<Rightarrow> string \<Rightarrow> bool" where
  "well_served w og tok rn \<longleftrightarrow>
     auth_token tok = None \<and>
     (case get_repo w (full_name og rn) of
        Inl e \<Rightarrow> False
      | Inr rp \<Rightarrow>
          (case totalCount rp of Inl e \<Rightarrow> False | Inr n \<Rightarrow> True) \<and>
          complete (get_issues rp) \<and> list_all fetchable (yielded (get_issues rp)))"

subsection \<open>Invariants of a run\<close>

text \<open>
  The one exception the code catches: a comment fetch that raised the rate-limit signal.
\<close>

fun handled :: "event \<Rightarrow> bool" where
  "handled (GetComments n (Inl e)) = (e = RateLimitExceededException)"
| "handled ev = False"

text \<open>No call so far raised anything that was not caught.\<close>

definition quiet :: "event list \<Rightarrow> bool" where
  "quiet t \<longleftrightarrow> (\<forall>ev \<in> set t. raised ev = None \<or> handled ev)"


text \<open>
  Every save in the trace went to the checkpoint path with the records of the comment
  fetches that had succeeded before it, and ended as the library does on them.
\<close>

definition snapshots_agree :: "string \<Rightarrow> run \<Rightarrow> bool" where
  "snapshots_agree path s \<longleftrightarrow>
     length (all_issues s) = fetched (trace s) \<and>
     (\<forall>pre p d r post. trace s = pre @ SaveToDisk p d r # post \<longrightarrow>
        p = path \<and> d = take (fetched pre) (all_issues s) \<and> r = save_to_disk d)"


text \<open>
  Every rate-limit signal that was caught is followed at once by a save; \<open>settled\<close>
  also says that the trace does not end in such a signal.
\<close>

fun starts_with_save :: "event list \<Rightarrow> bool" where
  "starts_with_save (SaveToDisk p d r # u) = True"
| "starts_with_save t = False"

fun saves_follow :: "event list \<Rightarrow> bool" where
  "saves_follow [] = True"
| "saves_follow (ev # t) = ((handled ev \<longrightarrow> starts_with_save t) \<and> saves_follow t)"

definition settled :: "event list \<Rightarrow> bool" where
  "settled t \<longleftrightarrow> saves_follow t \<and> (t = [] \<or> \<not> handled (last t))"

subsection \<open>A small service to run the code on\<close>

text \<open>
  Organization acme with the one repository widgets, whose issue list is the given
  stream; the quota resets at second 1120 and the clock reads 1000.
\<close>

definition a_date :: datetime where
  "a_date = \<lparr>year = 2024, month = 3, day = 9, hour = 7, minute = 5, second = 42\<rparr>"

definition an_issue :: "int \<Rightarrow> exn + string list \<Rightarrow> issue" where
  "an_issue n reply =
     \<lparr> issue.number = n, issue.state = ''open'', issue.title = ''crash'',
       issue.body = None, issue.created_at = a_date, issue.closed_at = None,
       get_comments = reply \<rparr>"

definition acme :: "issue_stream \<Rightarrow> world" where
  "acme stream =
     \<lparr> get_repo = (\<lambda>name.
         if name = ''acme/widgets''
         then Inr \<lparr>totalCount = Inr (length (yielded stream)), get_issues = stream\<rparr>
         else Inl (OtherException ''UnknownObjectException'')),
       get_rate_limit = (\<lambda>t. Inr 1120),
       time = (\<lambda>t. 1000) \<rparr>"

text \<open>The same service when the reset time it reports lies behind the clock.\<close>

definition acme_late :: "issue_stream \<Rightarrow> world" where
  "acme_late stream = (acme stream)\<lparr>get_rate_limit := (\<lambda>t. Inr 100), time := (\<lambda>t. 200)\<rparr>"

definition stream_of :: "issue list \<Rightarrow> issue_stream" where
  "stream_of xs = foldr Yield xs StopIteration"

section \<open>Properties\<close>

subsection \<open>The ways a step can end\<close>

lemma on_rate_limit_cases:
  assumes "on_rate_limit w path s = (r, s')"
  obtains
    (nosave) e where "r = Some e" "save_to_disk (all_issues s) = Some e"
      "s' = note_call (SaveToDisk path (all_issues s) (Some e)) s"
  | (norate) e where "r = Some e" "save_to_disk (all_issues s) = None"
      "s' = note_call (GetRateLimit (Inl e))
              (note_call (SaveToDisk path (all_issues s) None) s)"
  | (negative) reset t where "r = Some ValueError" "t < 0"
      "s' = note_call (Sleep t) (note_call (GetRateLimit (Inr reset))
              (note_call (SaveToDisk path (all_issues s) None) s))"
      "save_to_disk (all_issues s) = None"
  | (slept) reset t where "r = None" "\<not> t < 0"
      "s' = note_call (Sleep t) (note_call (GetRateLimit (Inr reset))
              (note_call (SaveToDisk path (all_issues s) None) s))"
      "save_to_disk (all_issues s) = None"
proof (cases "save_to_disk (all_issues s)")
  case (Some e)
  with assms have "r = Some e" "s' = note_call (SaveToDisk path (all_issues s) (Some e)) s"
    by (auto simp: on_rate_limit_def Let_def)
  with Some show thesis by (auto intro: nosave)
next
  case None
  with assms norate negative slept show thesis
    by (auto simp: on_rate_limit_def Let_def split: sum.splits if_splits)
qed

lemma collect_issue_cases:
  assumes "collect_issue w rn path i s = (r, s')"
  obtains
    (fetched) b where "get_comments i = Inr b" "r = None"
      "s' = (note_call (GetComments (issue.number i) (Inr b)) s)
              \<lparr>all_issues := all_issues s @ [make_issue_data rn i (join delimiter b)]\<rparr>"
  | (failed) e where "get_comments i = Inl e" "e \<noteq> RateLimitExceededException" "r = Some e"
      "s' = note_call (GetComments (issue.number i) (Inl e)) s"
  | (limited) "get_comments i = Inl RateLimitExceededException"
      "on_rate_limit w path
         (note_call (GetComments (issue.number i) (Inl RateLimitExceededException)) s) = (r, s')"
  using assms by (auto simp: collect_issue_def Let_def note_call_def split: sum.splits if_splits)

lemma collect_repo_cases:
  assumes "collect_repo w og tok path rn s = (r, s')"
  obtains
    (noauth) e where "r = Some e" "s' = note_call (AuthToken tok (Some e)) s"
  | (norepo) e where "r = Some e"
      "s' = note_call (GetRepo (full_name og rn) (Some e)) (note_call (AuthToken tok None) s)"
  | (nocount) e where "r = Some e"
      "s' = note_call (TotalCount (Inl e))
              (note_call (GetRepo (full_name og rn) None) (note_call (AuthToken tok None) s))"
  | (issues) rp n where "get_repo w (full_name og rn) = Inr rp"
      "collect_issues w rn path (get_issues rp)
         (note_call (TotalCount (Inr n))
            (note_call (GetRepo (full_name og rn) None) (note_call (AuthToken tok None) s)))
       = (r, s')"
proof (cases "auth_token tok")
  case (Some e)
  with assms have "r = Some e" "s' = note_call (AuthToken tok (Some e)) s"
    by (auto simp: collect_repo_def Let_def)
  then show thesis by (rule noauth)
next
  case None
  note auth = None
  show thesis
  proof (cases "get_repo w (full_name og rn)")
    case (Inl e)
    with assms auth have "r = Some e"
      "s' = note_call (GetRepo (full_name og rn) (Some e)) (note_call (AuthToken tok None) s)"
      by (auto simp: collect_repo_def Let_def)
    then show thesis by (rule norepo)
  next
    case (Inr rp)
    note rp = Inr
    show thesis
    proof (cases "totalCount rp")
      case (Inl e)
      with assms auth rp have "r = Some e"
        "s' = note_call (TotalCount (Inl e))
                (note_call (GetRepo (full_name og rn) None) (note_call (AuthToken tok None) s))"
        by (auto simp: collect_repo_def Let_def)
      then show thesis by (rule nocount)
    next
      case (Inr n)
      with assms auth rp have
        "collect_issues w rn path (get_issues rp)
           (note_call (TotalCount (Inr n))
              (note_call (GetRepo (full_name og rn) None) (note_call (AuthToken tok None) s)))
         = (r, s')"
        by (simp add: collect_repo_def Let_def)
      with rp show thesis by (rule issues)
    qed
  qed
qed

subsection \<open>The records a run collects\<close>

lemma collect_issue_records:
  "collect_issue w rn path i s = (r, s') \<Longrightarrow>
     all_issues s' = all_issues s @ map (issue_record rn) (filter fetchable [i])"
  by (auto simp: collect_issue_def on_rate_limit_def note_call_def Let_def fetchable_def
        issue_record_def bodies_of_def split: sum.splits option.splits if_splits)

lemma collect_issue_None:
  "collect_issue w rn path i s = (None, s') \<Longrightarrow>
     fetchable i \<or> get_comments i = Inl RateLimitExceededException"
  by (auto simp: collect_issue_def fetchable_def Let_def split: sum.splits if_splits)

lemma collect_issues_records:
  "collect_issues w rn path st s = (None, s') \<Longrightarrow>
     all_issues s' = all_issues s @ map (issue_record rn) (filter fetchable (yielded st))"
proof (induction st arbitrary: s)
  case StopIteration
  then show ?case by simp
next
  case (Yield i rest)
  from Yield.prems obtain s1 where
    step: "collect_issue w rn path i s = (None, s1)" and
    rest: "collect_issues w rn path rest s1 = (None, s')"
    by (auto split: prod.splits option.splits)
  from collect_issue_records [OF step] Yield.IH [OF rest] show ?case by simp
next
  case (Raise e)
  then show ?case by simp
qed

lemma collect_issues_None:
  "collect_issues w rn path st s = (None, s') \<Longrightarrow> i \<in> set (yielded st) \<Longrightarrow>
     fetchable i \<or> get_comments i = Inl RateLimitExceededException"
proof (induction st arbitrary: s)
  case (Yield j rest)
  from Yield.prems(1) obtain s1 where
    step: "collect_issue w rn path j s = (None, s1)" and
    rest: "collect_issues w rn path rest s1 = (None, s')"
    by (auto split: prod.splits option.splits)
  from Yield.prems(2) collect_issue_None [OF step] Yield.IH [OF rest] show ?case by auto
qed simp_all

lemma collect_repo_stream:
  "collect_repo w og tok path rn s = (None, s') \<Longrightarrow>
     \<exists>rp. get_repo w (full_name og rn) = Inr rp \<and>
       collect_issues w rn path (get_issues rp)
         (s\<lparr>trace := trace s @
            [AuthToken tok None, GetRepo (full_name og rn) None, TotalCount (totalCount rp)]\<rparr>)
       = (None, s')"
  by (auto simp: collect_repo_def Let_def note_call_def split: option.splits sum.splits)

lemma collect_repo_records:
  assumes "collect_repo w og tok path rn s = (None, s')"
  shows "all_issues s' =
     all_issues s @ map (issue_record rn) (filter fetchable (repo_issues w og rn))"
proof -
  from collect_repo_stream [OF assms] obtain rp where
    rp: "get_repo w (full_name og rn) = Inr rp" and
    inner: "collect_issues w rn path (get_issues rp)
         (s\<lparr>trace := trace s @
            [AuthToken tok None, GetRepo (full_name og rn) None, TotalCount (totalCount rp)]\<rparr>)
       = (None, s')"
    by blast
  from collect_issues_records [OF inner] rp show ?thesis
    by (simp add: repo_issues_def)
qed

lemma collect_repo_None:
  assumes "collect_repo w og tok path rn s = (None, s')" and "i \<in> set (repo_issues w og rn)"
  shows "fetchable i \<or> get_comments i = Inl RateLimitExceededException"
proof -
  from collect_repo_stream [OF assms(1)] obtain rp s3 where
    rp: "get_repo w (full_name og rn) = Inr rp" and
    inner: "collect_issues w rn path (get_issues rp) s3 = (None, s')"
    by blast
  from assms(2) rp have "i \<in> set (yielded (get_issues rp))"
    by (simp add: repo_issues_def)
  with collect_issues_None [OF inner] show ?thesis by blast
qed

lemma collect_repos_records:
  "collect_repos w og tok path names s = (None, s') \<Longrightarrow>
     all_issues s' = all_issues s @
       concat (map (\<lambda>rn. map (issue_record rn) (filter fetchable (repo_issues w og rn))) names)"
proof (induction names arbitrary: s)
  case Nil
  then show ?case by simp
next
  case (Cons rn rest)
  from Cons.prems obtain s1 where
    step: "collect_repo w og tok path rn s = (None, s1)" and
    rest: "collect_repos w og tok path rest s1 = (None, s')"
    by (auto split: prod.splits option.splits)
  from collect_repo_records [OF step] Cons.IH [OF rest] show ?case by simp
qed

lemma collect_repos_None:
  "collect_repos w og tok path names s = (None, s') \<Longrightarrow> rn \<in> set names \<Longrightarrow>
   i \<in> set (repo_issues w og rn) \<Longrightarrow>
     fetchable i \<or> get_comments i = Inl RateLimitExceededException"
proof (induction names arbitrary: s)
  case (Cons a rest)
  from Cons.prems(1) obtain s1 where
    step: "collect_repo w og tok path a s = (None, s1)" and
    rest: "collect_repos w og tok path rest s1 = (None, s')"
    by (auto split: prod.splits option.splits)
  from Cons.prems(2,3) collect_repo_None [OF step] Cons.IH [OF rest] show ?case by auto
qed simp

lemma extract_returns_records:
  assumes "extract_gh_repo_issues w og (Some names) tok path = (Inr result, s)"
  shows "result = all_issues s" and "collect_repos w og tok path names start = (None, s)"
  using assms by (auto simp: extract_gh_repo_issues_def split: prod.splits option.splits)

subsection \<open>A run without errors returns\<close>

lemma collect_issues_returns:
  "complete st \<Longrightarrow> list_all fetchable (yielded st) \<Longrightarrow>
     \<exists>s'. collect_issues w rn path st s = (None, s')"
proof (induction st arbitrary: s)
  case StopIteration
  then show ?case by simp
next
  case (Yield i rest)
  from Yield.prems(2) obtain b where b: "get_comments i = Inr b"
    by (auto simp: fetchable_def split: sum.splits)
  then obtain s1 where step: "collect_issue w rn path i s = (None, s1)"
    by (simp add: collect_issue_def Let_def)
  from Yield.IH [of s1] Yield.prems obtain s' where
    "collect_issues w rn path rest s1 = (None, s')" by auto
  with step show ?case by simp
next
  case (Raise e)
  then show ?case by simp
qed

lemma collect_repo_returns:
  assumes "well_served w og tok rn"
  shows "\<exists>s'. collect_repo w og tok path rn s = (None, s')"
proof -
  from assms obtain rp n where auth: "auth_token tok = None"
    and rp: "get_repo w (full_name og rn) = Inr rp" and n: "totalCount rp = Inr n"
    and c: "complete (get_issues rp)" and f: "list_all fetchable (yielded (get_issues rp))"
    by (auto simp: well_served_def split: sum.splits)
  from collect_issues_returns [OF c f] auth rp n show ?thesis
    by (simp add: collect_repo_def Let_def)
qed

lemma collect_repos_returns:
  "\<forall>rn \<in> set names. well_served w og tok rn \<Longrightarrow>
     \<exists>s'. collect_repos w og tok path names s = (None, s')"
proof (induction names arbitrary: s)
  case Nil
  then show ?case by simp
next
  case (Cons rn rest)
  from Cons.prems have "well_served w og tok rn" by simp
  from collect_repo_returns [OF this] obtain s1 where
    step: "collect_repo w og tok path rn s = (None, s1)" by blast
  from Cons.IH [of s1] Cons.prems obtain s' where
    "collect_repos w og tok path rest s1 = (None, s')" by auto
  with step show ?case by simp
qed

lemma extract_returns:
  assumes "\<forall>rn \<in> set names. well_served w og tok rn"
  shows "\<exists>result s. extract_gh_repo_issues w og (Some names) tok path = (Inr result, s)"
proof -
  from collect_repos_returns [OF assms] obtain s where
    "collect_repos w og tok path names start = (None, s)" by blast
  then show ?thesis by (simp add: extract_gh_repo_issues_def)
qed

subsection \<open>Saves\<close>

lemma fetched_append: "fetched (xs @ ys) = fetched xs + fetched ys"
  by (simp add: fetched_def)

lemma fetched_single: "fetched [ev] = (if fetched_ok ev then 1 else 0)"
  by (simp add: fetched_def)

lemma snoc_split:
  assumes "t @ [ev] = pre @ x # post"
  shows "(post = [] \<and> pre = t \<and> x = ev) \<or> (\<exists>ys. post = ys @ [ev] \<and> t = pre @ x # ys)"
proof (cases post rule: rev_cases)
  case Nil
  with assms show ?thesis by simp
next
  case (snoc ys y)
  with assms have "t @ [ev] = (pre @ x # ys) @ [y]" by simp
  then have "t = pre @ x # ys \<and> ev = y" by (simp only: append1_eq_conv)
  with snoc show ?thesis by simp
qed

lemma snapshots_agreeD:
  "snapshots_agree path s \<Longrightarrow> trace s = pre @ SaveToDisk p d r # post \<Longrightarrow>
     p = path \<and> d = take (fetched pre) (all_issues s) \<and> r = save_to_disk d"
  unfolding snapshots_agree_def by blast

lemma snapshots_agree_call:
  assumes inv: "snapshots_agree path s"
    and nofetch: "\<not> fetched_ok ev"
    and save: "\<And>p d r. ev = SaveToDisk p d r \<Longrightarrow>
                 p = path \<and> d = all_issues s \<and> r = save_to_disk d"
  shows "snapshots_agree path (note_call ev s)"
proof -
  have len: "length (all_issues s) = fetched (trace s)"
    using inv by (simp add: snapshots_agree_def)
  have "p = path \<and> d = take (fetched pre) (all_issues s) \<and> r = save_to_disk d"
    if split: "trace s @ [ev] = pre @ SaveToDisk p d r # post" for pre p d r post
    using snoc_split [OF split]
  proof
    assume "post = [] \<and> pre = trace s \<and> SaveToDisk p d r = ev"
    with save [of p d r] len show ?thesis by simp
  next
    assume "\<exists>ys. post = ys @ [ev] \<and> trace s = pre @ SaveToDisk p d r # ys"
    then obtain ys where "trace s = pre @ SaveToDisk p d r # ys" by blast
    from snapshots_agreeD [OF inv this] show ?thesis .
  qed
  with len nofetch show ?thesis
    by (simp add: snapshots_agree_def note_call_def fetched_append fetched_single)
qed

lemma snapshots_agree_fetch:
  assumes inv: "snapshots_agree path s"
  shows "snapshots_agree path
           ((note_call (GetComments n (Inr b)) s)\<lparr>all_issues := all_issues s @ [x]\<rparr>)"
proof -
  have len: "length (all_issues s) = fetched (trace s)"
    using inv by (simp add: snapshots_agree_def)
  have "p = path \<and> d = take (fetched pre) (all_issues s @ [x]) \<and> r = save_to_disk d"
    if split: "trace s @ [GetComments n (Inr b)] = pre @ SaveToDisk p d r # post"
    for pre p d r post
    using snoc_split [OF split]
  proof
    assume "post = [] \<and> pre = trace s \<and> SaveToDisk p d r = GetComments n (Inr b)"
    then show ?thesis by simp
  next
    assume "\<exists>ys. post = ys @ [GetComments n (Inr b)] \<and> trace s = pre @ SaveToDisk p d r # ys"
    then obtain ys where t: "trace s = pre @ SaveToDisk p d r # ys" by blast
    then have "fetched pre \<le> length (all_issues s)"
      using len by (simp add: fetched_append)
    moreover from snapshots_agreeD [OF inv t]
    have "p = path \<and> d = take (fetched pre) (all_issues s) \<and> r = save_to_disk d" .
    ultimately show ?thesis by simp
  qed
  with len show ?thesis
    by (simp add: snapshots_agree_def note_call_def fetched_append fetched_single)
qed

lemma on_rate_limit_agree:
  assumes inv: "snapshots_agree path s" and run: "on_rate_limit w path s = (r, s')"
  shows "snapshots_agree path s'"
proof -
  let ?s1 = "note_call (SaveToDisk path (all_issues s) (save_to_disk (all_issues s))) s"
  have a1: "snapshots_agree path ?s1"
    by (rule snapshots_agree_call [OF inv]) simp_all
  have a2: "snapshots_agree path (note_call (GetRateLimit x) ?s1)" for x
    by (rule snapshots_agree_call [OF a1]) simp_all
  have a3: "snapshots_agree path (note_call (Sleep t) (note_call (GetRateLimit x) ?s1))" for t x
    by (rule snapshots_agree_call [OF a2]) simp_all
  from run show ?thesis
  proof (cases rule: on_rate_limit_cases)
    case (nosave e)
    with a1 show ?thesis by simp
  next
    case (norate e)
    with a2 [of "Inl e"] show ?thesis by simp
  next
    case (negative reset t)
    with a3 [of t "Inr reset"] show ?thesis by simp
  next
    case (slept reset t)
    with a3 [of t "Inr reset"] show ?thesis by simp
  qed
qed

lemma collect_issue_agree:
  assumes inv: "snapshots_agree path s" and run: "collect_issue w rn path i s = (r, s')"
  shows "snapshots_agree path s'"
  using run
proof (cases rule: collect_issue_cases)
  case (fetched b)
  with snapshots_agree_fetch [OF inv] show ?thesis by simp
next
  case (failed e)
  have "snapshots_agree path (note_call (GetComments (issue.number i) (Inl e)) s)"
    by (rule snapshots_agree_call [OF inv]) simp_all
  with failed show ?thesis by simp
next
  case limited
  have "snapshots_agree path
          (note_call (GetComments (issue.number i) (Inl RateLimitExceededException)) s)"
    by (rule snapshots_agree_call [OF inv]) simp_all
  from on_rate_limit_agree [OF this limited(2)] show ?thesis .
qed

lemma collect_issues_agree:
  "snapshots_agree path s \<Longrightarrow> collect_issues w rn path st s = (r, s') \<Longrightarrow>
     snapshots_agree path s'"
proof (induction st arbitrary: s)
  case StopIteration
  then show ?case by simp
next
  case (Yield i rest)
  obtain r1 s1 where step: "collect_issue w rn path i s = (r1, s1)"
    by (cases "collect_issue w rn path i s")
  from collect_issue_agree [OF Yield.prems(1) step] have a1: "snapshots_agree path s1" .
  show ?case
  proof (cases r1)
    case None
    with step Yield.prems(2) have "collect_issues w rn path rest s1 = (r, s')" by simp
    from Yield.IH [OF a1 this] show ?thesis .
  next
    case (Some e)
    with step Yield.prems(2) a1 show ?thesis by simp
  qed
next
  case (Raise e)
  have "snapshots_agree path (note_call (NextIssueRaised e) s)"
    by (rule snapshots_agree_call [OF Raise(1)]) simp_all
  with Raise(2) show ?case by auto
qed

lemma collect_repo_agree:
  assumes inv: "snapshots_agree path s" and run: "collect_repo w og tok path rn s = (r, s')"
  shows "snapshots_agree path s'"
proof -
  have a1: "snapshots_agree path (note_call (AuthToken tok x) s)" for x
    by (rule snapshots_agree_call [OF inv]) simp_all
  have a2: "snapshots_agree path (note_call (GetRepo nm y) (note_call (AuthToken tok x) s))"
    for x y nm
    by (rule snapshots_agree_call [OF a1]) simp_all
  have a3: "snapshots_agree path
      (note_call (TotalCount c) (note_call (GetRepo nm y) (note_call (AuthToken tok x) s)))"
    for x y nm c
    by (rule snapshots_agree_call [OF a2]) simp_all
  from run show ?thesis
  proof (cases rule: collect_repo_cases)
    case (issues rp n)
    from collect_issues_agree [OF a3 issues(2)] show ?thesis .
  qed (simp_all add: a1 a2 a3)
qed

lemma collect_repos_agree:
  "snapshots_agree path s \<Longrightarrow> collect_repos w og tok path names s = (r, s') \<Longrightarrow>
     snapshots_agree path s'"
proof (induction names arbitrary: s)
  case Nil
  then show ?case by simp
next
  case (Cons rn rest)
  obtain r1 s1 where step: "collect_repo w og tok path rn s = (r1, s1)"
    by (cases "collect_repo w og tok path rn s")
  from collect_repo_agree [OF Cons.prems(1) step] have a1: "snapshots_agree path s1" .
  show ?case
  proof (cases r1)
    case None
    with step Cons.prems(2) have "collect_repos w og tok path rest s1 = (r, s')" by simp
    from Cons.IH [OF a1 this] show ?thesis .
  next
    case (Some e)
    with step Cons.prems(2) a1 show ?thesis by simp
  qed
qed

lemma extract_agree:
  assumes "extract_gh_repo_issues w og rs tok path = (res, s)"
  shows "snapshots_agree path s"
proof (cases rs)
  case None
  with assms show ?thesis
    by (auto simp: extract_gh_repo_issues_def start_def snapshots_agree_def fetched_def)
next
  case (Some names)
  have a0: "snapshots_agree path start"
    by (simp add: start_def snapshots_agree_def fetched_def)
  obtain r s1 where run: "collect_repos w og tok path names start = (r, s1)"
    by (cases "collect_repos w og tok path names start")
  with assms Some have "s = s1"
    by (auto simp: extract_gh_repo_issues_def split: option.splits)
  with collect_repos_agree [OF a0 run] show ?thesis by simp
qed

subsection \<open>A caught signal is followed by a save\<close>

lemma starts_with_save_append: "starts_with_save t \<Longrightarrow> starts_with_save (t @ u)"
  by (cases t rule: starts_with_save.cases) simp_all

lemma settled_append: "settled t \<Longrightarrow> settled u \<Longrightarrow> settled (t @ u)"
proof (induction t)
  case Nil
  then show ?case by simp
next
  case (Cons ev t)
  show ?case
  proof (cases "t = []")
    case True
    with Cons.prems show ?thesis by (auto simp: settled_def)
  next
    case False
    with Cons.prems have "settled t" by (simp add: settled_def)
    from Cons.IH [OF this Cons.prems(2)] Cons.prems(1) False show ?thesis
      by (auto simp: settled_def starts_with_save_append)
  qed
qed

lemma settled_single: "\<not> handled ev \<Longrightarrow> settled [ev]"
  by (simp add: settled_def)

lemma settled_call:
  "settled (trace s) \<Longrightarrow> \<not> handled ev \<Longrightarrow> settled (trace (note_call ev s))"
  by (simp add: note_call_def settled_append settled_single)

lemma collect_issue_settled:
  assumes st: "settled (trace s)" and run: "collect_issue w rn path i s = (r, s')"
  shows "settled (trace s')"
  using run
proof (cases rule: collect_issue_cases)
  case (fetched b)
  with settled_call [OF st, of "GetComments (issue.number i) (Inr b)"] show ?thesis
    by (simp add: note_call_def)
next
  case (failed e)
  with settled_call [OF st, of "GetComments (issue.number i) (Inl e)"] show ?thesis by simp
next
  case limited
  let ?g = "GetComments (issue.number i) (Inl RateLimitExceededException)"
  have a: "settled [?g, SaveToDisk path d x]" "settled [?g, SaveToDisk path d x, GetRateLimit y]"
    for d x y
    by (simp_all add: settled_def)
  have b: "settled [?g, SaveToDisk path d x, GetRateLimit y, Sleep t]" for d x y t
    by (simp add: settled_def)
  from limited(2) have "\<exists>u. trace s' = trace s @ u \<and> settled u"
    by (cases rule: on_rate_limit_cases) (auto simp: note_call_def a b)
  with st show ?thesis by (auto simp: settled_append)
qed

lemma collect_issues_settled:
  "settled (trace s) \<Longrightarrow> collect_issues w rn path st s = (r, s') \<Longrightarrow> settled (trace s')"
proof (induction st arbitrary: s)
  case StopIteration
  then show ?case by simp
next
  case (Yield i rest)
  obtain r1 s1 where step: "collect_issue w rn path i s = (r1, s1)"
    by (cases "collect_issue w rn path i s")
  from collect_issue_settled [OF Yield.prems(1) step] have a1: "settled (trace s1)" .
  show ?case
  proof (cases r1)
    case None
    with step Yield.prems(2) have "collect_issues w rn path rest s1 = (r, s')" by simp
    from Yield.IH [OF a1 this] show ?thesis .
  next
    case (Some e)
    with step Yield.prems(2) a1 show ?thesis by simp
  qed
next
  case (Raise e)
  with settled_call [OF Raise(1), of "NextIssueRaised e"] show ?case by auto
qed

lemma collect_repo_settled:
  assumes st: "settled (trace s)" and run: "collect_repo w og tok path rn s = (r, s')"
  shows "settled (trace s')"
proof -
  have a1: "settled (trace (note_call (AuthToken tok x) s))" for x
    by (rule settled_call [OF st]) simp
  have a2: "settled (trace (note_call (GetRepo nm y) (note_call (AuthToken tok x) s)))"
    for x y nm
    by (rule settled_call [OF a1]) simp
  have a3: "settled (trace
      (note_call (TotalCount c) (note_call (GetRepo nm y) (note_call (AuthToken tok x) s))))"
    for x y nm c
    by (rule settled_call [OF a2]) simp
  from run show ?thesis
  proof (cases rule: collect_repo_cases)
    case (issues rp n)
    from collect_issues_settled [OF a3 issues(2)] show ?thesis .
  qed (simp_all add: a1 a2 a3)
qed

lemma collect_repos_settled:
  "settled (trace s) \<Longrightarrow> collect_repos w og tok path names s = (r, s') \<Longrightarrow>
     settled (trace s')"
proof (induction names arbitrary: s)
  case Nil
  then show ?case by simp
next
  case (Cons rn rest)
  obtain r1 s1 where step: "collect_repo w og tok path rn s = (r1, s1)"
    by (cases "collect_repo w og tok path rn s")
  from collect_repo_settled [OF Cons.prems(1) step] have a1: "settled (trace s1)" .
  show ?case
  proof (cases r1)
    case None
    with step Cons.prems(2) have "collect_repos w og tok path rest s1 = (r, s')" by simp
    from Cons.IH [OF a1 this] show ?thesis .
  next
    case (Some e)
    with step Cons.prems(2) a1 show ?thesis by simp
  qed
qed

lemma extract_settled:
  assumes "extract_gh_repo_issues w og rs tok path = (res, s)"
  shows "saves_follow (trace s)"
proof (cases rs)
  case None
  with assms show ?thesis
    by (auto simp: extract_gh_repo_issues_def start_def)
next
  case (Some names)
  have a0: "settled (trace start)"
    by (simp add: start_def settled_def)
  obtain r s1 where run: "collect_repos w og tok path names start = (r, s1)"
    by (cases "collect_repos w og tok path names start")
  with assms Some have "s = s1"
    by (auto simp: extract_gh_repo_issues_def split: option.splits)
  with collect_repos_settled [OF a0 run] show ?thesis by (simp add: settled_def)
qed

lemma saves_follow_split:
  "saves_follow (pre @ ev # post) \<Longrightarrow> handled ev \<Longrightarrow> \<exists>p d r u. post = SaveToDisk p d r # u"
proof (induction pre)
  case Nil
  then show ?case by (cases post rule: starts_with_save.cases) simp_all
next
  case (Cons a pre)
  then show ?case by simp
qed

subsection \<open>Exceptions end the run\<close>










subsection \<open>How a run begins\<close>

lemma on_rate_limit_grows:
  "on_rate_limit w path s = (r, s') \<Longrightarrow> \<exists>t. trace s' = trace s @ t"
  by (erule on_rate_limit_cases) (simp_all add: note_call_def)

lemma collect_issue_grows:
  assumes "collect_issue w rn path i s = (r, s')"
  shows "\<exists>t. trace s' = trace s @ t"
  using assms
proof (cases rule: collect_issue_cases)
  case limited
  from on_rate_limit_grows [OF limited(2)] show ?thesis by (auto simp: note_call_def)
qed (simp_all add: note_call_def)

lemma collect_issues_grows:
  "collect_issues w rn path st s = (r, s') \<Longrightarrow> \<exists>t. trace s' = trace s @ t"
proof (induction st arbitrary: s)
  case StopIteration
  then show ?case by simp
next
  case (Yield i rest)
  obtain r1 s1 where step: "collect_issue w rn path i s = (r1, s1)"
    by (cases "collect_issue w rn path i s")
  from collect_issue_grows [OF step] obtain t1 where t1: "trace s1 = trace s @ t1" ..
  show ?case
  proof (cases r1)
    case None
    with step Yield.prems have "collect_issues w rn path rest s1 = (r, s')" by simp
    from Yield.IH [OF this] t1 show ?thesis by auto
  next
    case (Some e)
    with step Yield.prems t1 show ?thesis by auto
  qed
next
  case (Raise e)
  then show ?case by (auto simp: note_call_def)
qed

lemma collect_repo_starts:
  assumes "collect_repo w og tok path rn s = (r, s')"
  shows "\<exists>t. trace s' = trace s @ AuthToken tok (auth_token tok) # t \<and>
           (auth_token tok = None \<longrightarrow> (\<exists>x u. t = GetRepo (full_name og rn) x # u))"
proof (cases "auth_token tok")
  case (Some e)
  with assms show ?thesis by (auto simp: collect_repo_def Let_def note_call_def)
next
  case None
  note auth = None
  show ?thesis
  proof (cases "get_repo w (full_name og rn)")
    case (Inl e)
    with assms auth show ?thesis by (auto simp: collect_repo_def Let_def note_call_def)
  next
    case (Inr rp)
    note rp = Inr
    show ?thesis
    proof (cases "totalCount rp")
      case (Inl e)
      with assms auth rp show ?thesis by (auto simp: collect_repo_def Let_def note_call_def)
    next
      case (Inr n)
      with assms auth rp have
        "collect_issues w rn path (get_issues rp)
           (s\<lparr>trace := trace s @ [AuthToken tok None, GetRepo (full_name og rn) None,
                                  TotalCount (Inr n)]\<rparr>) = (r, s')"
        by (simp add: collect_repo_def Let_def note_call_def)
      from collect_issues_grows [OF this] auth show ?thesis by auto
    qed
  qed
qed

lemma collect_repos_grows:
  "collect_repos w og tok path names s = (r, s') \<Longrightarrow> \<exists>t. trace s' = trace s @ t"
proof (induction names arbitrary: s)
  case Nil
  then show ?case by simp
next
  case (Cons rn rest)
  obtain r1 s1 where step: "collect_repo w og tok path rn s = (r1, s1)"
    by (cases "collect_repo w og tok path rn s")
  from collect_repo_starts [OF step] obtain t1 where t1: "trace s1 = trace s @ t1" by auto
  show ?case
  proof (cases r1)
    case None
    with step Cons.prems have "collect_repos w og tok path rest s1 = (r, s')" by simp
    from Cons.IH [OF this] t1 show ?thesis by auto
  next
    case (Some e)
    with step Cons.prems t1 show ?thesis by auto
  qed
qed

lemma extract_starts:
  assumes "extract_gh_repo_issues w og (Some (rn # rest)) tok path = (res, s)"
  shows "\<exists>t. trace s = AuthToken tok (auth_token tok) # t \<and>
           (auth_token tok = None \<longrightarrow> (\<exists>x u. t = GetRepo (full_name og rn) x # u))"
proof -
  obtain r1 s1 where step: "collect_repo w og tok path rn start = (r1, s1)"
    by (cases "collect_repo w og tok path rn start")
  from collect_repo_starts [OF step] obtain t where
    t: "trace s1 = AuthToken tok (auth_token tok) # t"
       "auth_token tok = None \<longrightarrow> (\<exists>x u. t = GetRepo (full_name og rn) x # u)"
    by (auto simp: start_def)
  show ?thesis
  proof (cases r1)
    case None
    obtain r2 s2 where loop: "collect_repos w og tok path rest s1 = (r2, s2)"
      by (cases "collect_repos w og tok path rest s1")
    from collect_repos_grows [OF loop] obtain t2 where "trace s2 = trace s1 @ t2" ..
    moreover from assms step None loop have "s = s2"
      by (auto simp: extract_gh_repo_issues_def split: option.splits)
    ultimately show ?thesis using t by auto
  next
    case (Some e)
    with assms step have "s = s1" by (simp add: extract_gh_repo_issues_def)
    with t show ?thesis by auto
  qed
qed

subsection \<open>Where a returned record comes from\<close>

lemma extract_record_origin:
  assumes ret: "extract_gh_repo_issues w og (Some names) tok path = (Inr result, s)"
    and d: "d \<in> set result"
  obtains rn i bodies where "rn \<in> set names" "i \<in> set (repo_issues w og rn)"
    "get_comments i = Inr bodies" "d = make_issue_data rn i (join delimiter bodies)"
proof -
  from extract_returns_records [OF ret] have
    res: "result = all_issues s" and run: "collect_repos w og tok path names start = (None, s)"
    by simp_all
  from collect_repos_records [OF run] res d obtain rn i where
    rn: "rn \<in> set names" and i: "i \<in> set (repo_issues w og rn)" and f: "fetchable i"
    and rec: "d = issue_record rn i"
    by (auto simp: start_def)
  from f obtain bodies where b: "get_comments i = Inr bodies"
    by (auto simp: fetchable_def split: sum.splits)
  with rec have "d = make_issue_data rn i (join delimiter bodies)"
    by (simp add: issue_record_def bodies_of_def)
  with rn i b show thesis by (rule that)
qed

subsection \<open>What the saves of a run hold\<close>

text \<open>
  Every save of a run goes to the checkpoint path with exactly the records appended
  before it, as many as comment fetches had succeeded by then, and every rate-limit
  signal that is caught is followed at once by such a save. The save writes the
  checkpoint unless those records are none.
\<close>

lemma saves_hold_records_so_far:
  assumes run: "extract_gh_repo_issues w og rs tok path = (res, s)"
  shows "(trace s = pre @ SaveToDisk p d r # post \<longrightarrow>
            p = path \<and> d = take (fetched pre) (all_issues s) \<and> length d = fetched pre \<and>
            r = save_to_disk d) \<and>
         (trace s = pre @ GetComments n (Inl RateLimitExceededException) # post \<longrightarrow>
            (\<exists>u. post = SaveToDisk path (take (fetched pre) (all_issues s))
                           (save_to_disk (take (fetched pre) (all_issues s))) # u))"
proof -
  from extract_agree [OF run] have inv: "snapshots_agree path s" .
  then have len: "length (all_issues s) = fetched (trace s)"
    by (simp add: snapshots_agree_def)
  have saved: "p = path \<and> d = take (fetched pre) (all_issues s) \<and> length d = fetched pre \<and>
      r = save_to_disk d"
    if split: "trace s = pre @ SaveToDisk p d r # post"
  proof -
    from split len have le: "fetched pre \<le> length (all_issues s)"
      by (simp add: fetched_append)
    with snapshots_agreeD [OF inv split] show ?thesis by simp
  qed
  have limited: "\<exists>u. post = SaveToDisk path (take (fetched pre) (all_issues s))
                           (save_to_disk (take (fetched pre) (all_issues s))) # u"
    if split: "trace s = pre @ GetComments n (Inl RateLimitExceededException) # post"
  proof -
    let ?g = "GetComments n (Inl RateLimitExceededException)"
    from extract_settled [OF run] split have "saves_follow (pre @ ?g # post)" by simp
    from saves_follow_split [OF this] obtain p' d' r' u where
      post: "post = SaveToDisk p' d' r' # u"
      by auto
    with split have "trace s = (pre @ [?g]) @ SaveToDisk p' d' r' # u" by simp
    from snapshots_agreeD [OF inv this] post show ?thesis
      by (simp add: fetched_append fetched_single)
  qed
  from saved limited show ?thesis by blast
qed

lemma wait_time_after_120: "real_of_int reset = now + 120 \<Longrightarrow> wait_time reset now = 123"
  by (simp add: wait_time_def)

subsection \<open>Running the code on the small service\<close>

lemmas run_defs = extract_gh_repo_issues_def start_def collect_repo_def collect_issue_def
  on_rate_limit_def save_to_disk_def auth_token_def note_call_def full_name_def str_of_def
  acme_def stream_of_def
  wait_time_def issue_record_def bodies_of_def delimiter_def Let_def

lemma length_zfill: "length (zfill k n) = k"
  by (induction k arbitrary: n) simp_all

lemma length_strftime: "length (strftime d) = 19"
  by (simp add: strftime_def length_zfill)

lemma zfill_2: "zfill 2 n = [digit (n div 10), digit n]"
  by (simp add: numeral_2_eq_2)

lemma zfill_4: "zfill 4 n = [digit (n div 10 div 10 div 10), digit (n div 10 div 10), digit (n div 10), digit n]"
proof -
  have "(4::nat) = Suc (Suc (Suc (Suc 0)))" by simp
  then show ?thesis by (simp only: zfill.simps append.simps)
qed

lemma strftime_a_date: "strftime a_date = ''03-09-2024 07:05:42''"
  by (simp add: strftime_def a_date_def zfill_2 zfill_4 digit_def)

lemma get_comments_an_issue: "get_comments (an_issue n reply) = reply"
  by (simp add: an_issue_def)

lemma throttle_after_three_of_five:
  "extract_gh_repo_issues
     (acme (stream_of [an_issue 1 (Inr []), an_issue 2 (Inr []), an_issue 3 (Inr []),
                       an_issue 4 (Inl RateLimitExceededException), an_issue 5 (Inr [])]))
     (Some ''acme'') (Some [''widgets'']) (Some ''t'') ''ckpt'' =
   (Inr [issue_record ''widgets'' (an_issue 1 (Inr [])),
         issue_record ''widgets'' (an_issue 2 (Inr [])),
         issue_record ''widgets'' (an_issue 3 (Inr [])),
         issue_record ''widgets'' (an_issue 5 (Inr []))],
    \<lparr>all_issues = [issue_record ''widgets'' (an_issue 1 (Inr [])),
                   issue_record ''widgets'' (an_issue 2 (Inr [])),
                   issue_record ''widgets'' (an_issue 3 (Inr [])),
                   issue_record ''widgets'' (an_issue 5 (Inr []))],
     trace = [AuthToken (Some ''t'') None, GetRepo ''acme/widgets'' None, TotalCount (Inr 5),
              GetComments 1 (Inr []), GetComments 2 (Inr []), GetComments 3 (Inr []),
              GetComments 4 (Inl RateLimitExceededException),
              SaveToDisk ''ckpt'' [issue_record ''widgets'' (an_issue 1 (Inr [])),
                                   issue_record ''widgets'' (an_issue 2 (Inr [])),
                                   issue_record ''widgets'' (an_issue 3 (Inr []))] None,
              GetRateLimit (Inr 1120), Sleep 123, GetComments 5 (Inr [])]\<rparr>)"
  by (simp add: run_defs an_issue_def)

section \<open>The claims\<close>

text \<open>
  C1. The wait is not clamped at 0. One issue is collected, the comment fetch of the
  second is throttled, and the reset time the service reports (100) lies 100 seconds
  before the clock reading (200): the code computes \<open>(100 - 200) + 3 = -97\<close>, where
  \<open>max(0, reset - now) + 3\<close> is 3, and \<^verbatim>\<open>time.sleep\<close> raises \<^verbatim>\<open>ValueError\<close>, which ends
  the run.
\<close>

theorem negative_wait_ends_run:
  "extract_gh_repo_issues
     (acme_late (stream_of [an_issue 1 (Inr []),
                            an_issue 2 (Inl RateLimitExceededException),
                            an_issue 3 (Inr [])]))
     (Some ''acme'') (Some [''widgets'']) (Some ''t'') ''ckpt'' =
   (Inl ValueError,
    \<lparr>all_issues = [issue_record ''widgets'' (an_issue 1 (Inr []))],
     trace = [AuthToken (Some ''t'') None, GetRepo ''acme/widgets'' None, TotalCount (Inr 3),
              GetComments 1 (Inr []),
              GetComments 2 (Inl RateLimitExceededException),
              SaveToDisk ''ckpt'' [issue_record ''widgets'' (an_issue 1 (Inr []))] None,
              GetRateLimit (Inr 100), Sleep (- 97)]\<rparr>) \<and>
   wait_time 100 200 = - 97 \<and>
   max 0 (real_of_int 100 - 200) + 3 = 3"
  by (simp add: run_defs acme_late_def an_issue_def)

text \<open>
  C2. A rate-limit signal raised by the issue list itself is not handled: the iterator
  is advanced by the \<^verbatim>\<open>for\<close> statement, outside the \<^verbatim>\<open>try\<close> block. Here the first issue
  is fetched and the request for the next page is throttled: the exception leaves the
  function, nothing is saved and nothing waits.
\<close>

theorem issue_list_rate_limit_propagates:
  "extract_gh_repo_issues
     (acme (Yield (an_issue 1 (Inr [])) (Raise RateLimitExceededException)))
     (Some ''acme'') (Some [''widgets'']) (Some ''t'') ''ckpt'' =
   (Inl RateLimitExceededException,
    \<lparr>all_issues = [issue_record ''widgets'' (an_issue 1 (Inr []))],
     trace = [AuthToken (Some ''t'') None, GetRepo ''acme/widgets'' None, TotalCount (Inr 1),
              GetComments 1 (Inr []), NextIssueRaised RateLimitExceededException]\<rparr>)"
  by (simp add: run_defs an_issue_def)

text \<open>
  C3. After the wait the loop goes on with the next issue, not with the one whose
  comment fetch was throttled. Of three issues with the second one throttled, the
  returned collection holds the first and the third; the comments of issue 2 are
  requested once and never again.
\<close>

theorem throttled_issue_dropped:
  "extract_gh_repo_issues
     (acme (stream_of [an_issue 1 (Inr [''a'', ''b'']),
                       an_issue 2 (Inl RateLimitExceededException),
                       an_issue 3 (Inr [])]))
     (Some ''acme'') (Some [''widgets'']) (Some ''t'') ''ckpt'' =
   (Inr [issue_record ''widgets'' (an_issue 1 (Inr [''a'', ''b''])),
         issue_record ''widgets'' (an_issue 3 (Inr []))],
    \<lparr>all_issues = [issue_record ''widgets'' (an_issue 1 (Inr [''a'', ''b''])),
                   issue_record ''widgets'' (an_issue 3 (Inr []))],
     trace = [AuthToken (Some ''t'') None, GetRepo ''acme/widgets'' None, TotalCount (Inr 3),
              GetComments 1 (Inr [''a'', ''b'']),
              GetComments 2 (Inl RateLimitExceededException),
              SaveToDisk ''ckpt'' [issue_record ''widgets'' (an_issue 1 (Inr [''a'', ''b'']))] None,
              GetRateLimit (Inr 1120), Sleep 123,
              GetComments 3 (Inr [])]\<rparr>)"
  by (simp add: run_defs an_issue_def)

text \<open>
  C4. Every record of the returned collection has its \<open>closed_at\<close> equal to its
  \<open>created_at\<close>: both are the formatted creation time of the issue the record was
  built from, 19 characters wide, whatever the issue's own closing time is.
\<close>

theorem closed_at_is_created_at:
  assumes "extract_gh_repo_issues w og (Some names) tok path = (Inr result, s)"
    and "d \<in> set result"
  shows "closed_at d = created_at d \<and> length (closed_at d) = 19 \<and>
         (\<exists>rn \<in> set names. \<exists>i \<in> set (repo_issues w og rn).
            d = issue_record rn i \<and> closed_at d = strftime (issue.created_at i))"
proof -
  from assms obtain rn i bodies where o: "rn \<in> set names" "i \<in> set (repo_issues w og rn)"
    "get_comments i = Inr bodies" "d = make_issue_data rn i (join delimiter bodies)"
    by (rule extract_record_origin)
  then have "d = issue_record rn i"
    by (simp add: issue_record_def bodies_of_def)
  moreover from o(4) have "closed_at d = strftime (issue.created_at i)"
    "created_at d = strftime (issue.created_at i)"
    by (simp_all add: make_issue_data_def)
  ultimately show ?thesis using o(1,2) by (auto simp: length_strftime)
qed

theorem closed_at_is_created_at_witness:
  "extract_gh_repo_issues
     (acme (stream_of [an_issue 1 (Inr [''a'', ''b'']), an_issue 2 (Inr [])]))
     (Some ''acme'') (Some [''widgets'']) (Some ''t'') ''ckpt'' =
   (Inr [issue_record ''widgets'' (an_issue 1 (Inr [''a'', ''b''])),
         issue_record ''widgets'' (an_issue 2 (Inr []))],
    \<lparr>all_issues = [issue_record ''widgets'' (an_issue 1 (Inr [''a'', ''b''])),
                   issue_record ''widgets'' (an_issue 2 (Inr []))],
     trace = [AuthToken (Some ''t'') None, GetRepo ''acme/widgets'' None, TotalCount (Inr 2),
              GetComments 1 (Inr [''a'', ''b'']), GetComments 2 (Inr [])]\<rparr>) \<and>
   closed_at (issue_record ''widgets'' (an_issue 2 (Inr []))) = ''03-09-2024 07:05:42'' \<and>
   created_at (issue_record ''widgets'' (an_issue 2 (Inr []))) = ''03-09-2024 07:05:42'' \<and>
   issue.closed_at (an_issue 2 (Inr [])) = None"
proof -
  let ?d = "issue_record ''widgets'' (an_issue 2 (Inr []))"
  have run: "extract_gh_repo_issues
     (acme (stream_of [an_issue 1 (Inr [''a'', ''b'']), an_issue 2 (Inr [])]))
     (Some ''acme'') (Some [''widgets'']) (Some ''t'') ''ckpt'' =
   (Inr [issue_record ''widgets'' (an_issue 1 (Inr [''a'', ''b''])), ?d],
    \<lparr>all_issues = [issue_record ''widgets'' (an_issue 1 (Inr [''a'', ''b''])), ?d],
     trace = [AuthToken (Some ''t'') None, GetRepo ''acme/widgets'' None, TotalCount (Inr 2),
              GetComments 1 (Inr [''a'', ''b'']), GetComments 2 (Inr [])]\<rparr>)"
    by (simp add: run_defs an_issue_def)
  have mem: "?d \<in> set [issue_record ''widgets'' (an_issue 1 (Inr [''a'', ''b''])), ?d]"
    by simp
  from closed_at_is_created_at [OF run mem] have "closed_at ?d = created_at ?d" by blast
  moreover have "created_at ?d = ''03-09-2024 07:05:42''"
    by (simp add: issue_record_def make_issue_data_def an_issue_def strftime_a_date)
  moreover have "issue.closed_at (an_issue 2 (Inr [])) = None"
    by (simp add: an_issue_def)
  ultimately show ?thesis using run by simp
qed

lemma extract_records_without_rate_limit:
  assumes ret: "extract_gh_repo_issues w og (Some names) tok path = (Inr result, s)"
    and quiet: "\<forall>rn \<in> set names. \<forall>i \<in> set (repo_issues w og rn).
                  get_comments i \<noteq> Inl RateLimitExceededException"
  shows "result = concat (map (\<lambda>rn. map (issue_record rn) (repo_issues w og rn)) names)"
proof -
  from extract_returns_records [OF ret] have
    res: "result = all_issues s" and run: "collect_repos w og tok path names start = (None, s)"
    by simp_all
  have all: "filter fetchable (repo_issues w og rn) = repo_issues w og rn"
    if "rn \<in> set names" for rn
    using collect_repos_None [OF run that] quiet that by (auto simp: filter_id_conv)
  have "result =
      concat (map (\<lambda>rn. map (issue_record rn) (filter fetchable (repo_issues w og rn))) names)"
    using collect_repos_records [OF run] res by (simp add: start_def)
  also have "\<dots> = concat (map (\<lambda>rn. map (issue_record rn) (repo_issues w og rn)) names)"
    using all by (auto intro!: arg_cong [where f = concat])
  finally show ?thesis .
qed

text \<open>
  C5. If no comment fetch of a listed repository is throttled, the collection the
  function returns is the records of the repositories' issues, repository after
  repository in the order given, each repository's issues in the order the service
  yielded them; its length is the sum of the issue counts. And the function does
  return when every listed repository is served without an error. (Both hold for the
  empty list too.)
\<close>

theorem extract_without_rate_limit:
  assumes quiet: "\<forall>rn \<in> set names. \<forall>i \<in> set (repo_issues w og rn).
                    get_comments i \<noteq> Inl RateLimitExceededException"
  shows "(extract_gh_repo_issues w og (Some names) tok path = (Inr result, s) \<longrightarrow>
            result = concat (map (\<lambda>rn. map (issue_record rn) (repo_issues w og rn)) names) \<and>
            length result = sum_list (map (\<lambda>rn. length (repo_issues w og rn)) names)) \<and>
         ((\<forall>rn \<in> set names. well_served w og tok rn) \<longrightarrow>
            (\<exists>s'. extract_gh_repo_issues w og (Some names) tok path =
               (Inr (concat (map (\<lambda>rn. map (issue_record rn) (repo_issues w og rn)) names)), s')))"
proof -
  let ?expected = "concat (map (\<lambda>rn. map (issue_record rn) (repo_issues w og rn)) names)"
  have len: "length ?expected = sum_list (map (\<lambda>rn. length (repo_issues w og rn)) names)"
    by (simp add: length_concat comp_def)
  have records: "result = ?expected"
    if "extract_gh_repo_issues w og (Some names) tok path = (Inr result, s)"
    using that quiet by (rule extract_records_without_rate_limit)
  have returns: "\<exists>s'. extract_gh_repo_issues w og (Some names) tok path = (Inr ?expected, s')"
    if served: "\<forall>rn \<in> set names. well_served w og tok rn"
  proof -
    from extract_returns [OF served] obtain r s' where
      ret: "extract_gh_repo_issues w og (Some names) tok path = (Inr r, s')" by blast
    from ret quiet have "r = ?expected" by (rule extract_records_without_rate_limit)
    with ret show ?thesis by blast
  qed
  from records len returns show ?thesis by auto
qed

theorem extract_without_rate_limit_witness:
  "extract_gh_repo_issues
     (acme (stream_of [an_issue 1 (Inr [''a'', ''b'']), an_issue 2 (Inr [])]))
     (Some ''acme'') (Some [''widgets'']) (Some ''t'') ''out'' =
   (Inr [issue_record ''widgets'' (an_issue 1 (Inr [''a'', ''b''])),
         issue_record ''widgets'' (an_issue 2 (Inr []))],
    \<lparr>all_issues = [issue_record ''widgets'' (an_issue 1 (Inr [''a'', ''b''])),
                   issue_record ''widgets'' (an_issue 2 (Inr []))],
     trace = [AuthToken (Some ''t'') None, GetRepo ''acme/widgets'' None, TotalCount (Inr 2),
              GetComments 1 (Inr [''a'', ''b'']), GetComments 2 (Inr [])]\<rparr>) \<and>
   repo_issues (acme (stream_of [an_issue 1 (Inr [''a'', ''b'']), an_issue 2 (Inr [])]))
     (Some ''acme'') ''widgets'' = [an_issue 1 (Inr [''a'', ''b'']), an_issue 2 (Inr [])] \<and>
   well_served (acme (stream_of [an_issue 1 (Inr [''a'', ''b'']), an_issue 2 (Inr [])]))
     (Some ''acme'') (Some ''t'') ''widgets'' \<and>
   length [issue_record ''widgets'' (an_issue 1 (Inr [''a'', ''b''])),
           issue_record ''widgets'' (an_issue 2 (Inr []))] =
   sum_list (map (\<lambda>rn. length (repo_issues
       (acme (stream_of [an_issue 1 (Inr [''a'', ''b'']), an_issue 2 (Inr [])]))
       (Some ''acme'') rn)) [''widgets''])"
proof -
  let ?w = "acme (stream_of [an_issue 1 (Inr [''a'', ''b'']), an_issue 2 (Inr [])])"
  let ?r = "[issue_record ''widgets'' (an_issue 1 (Inr [''a'', ''b''])),
             issue_record ''widgets'' (an_issue 2 (Inr []))]"
  let ?s = "\<lparr>all_issues = ?r,
     trace = [AuthToken (Some ''t'') None, GetRepo ''acme/widgets'' None, TotalCount (Inr 2),
              GetComments 1 (Inr [''a'', ''b'']), GetComments 2 (Inr [])]\<rparr>"
  have run: "extract_gh_repo_issues ?w (Some ''acme'') (Some [''widgets'']) (Some ''t'') ''out'' =
      (Inr ?r, ?s)"
    by (simp add: run_defs an_issue_def)
  have listed: "repo_issues ?w (Some ''acme'') ''widgets'' =
      [an_issue 1 (Inr [''a'', ''b'']), an_issue 2 (Inr [])]"
    by (simp add: repo_issues_def acme_def full_name_def str_of_def stream_of_def)
  have quiet: "\<forall>rn \<in> set [''widgets'']. \<forall>i \<in> set (repo_issues ?w (Some ''acme'') rn).
                  get_comments i \<noteq> Inl RateLimitExceededException"
    by (simp add: listed get_comments_an_issue)
  have served: "well_served ?w (Some ''acme'') (Some ''t'') ''widgets''"
    by (simp add: well_served_def auth_token_def acme_def full_name_def str_of_def
          stream_of_def fetchable_def get_comments_an_issue)
  from extract_without_rate_limit [OF quiet, where tok = "Some ''t''" and path = "''out''"
      and result = ?r and s = ?s] run
  have "length ?r =
      sum_list (map (\<lambda>rn. length (repo_issues ?w (Some ''acme'') rn)) [''widgets''])"
    by blast
  with run listed served show ?thesis by simp
qed

text \<open>
  C6. The \<open>comments\<close> field of every returned record is the comment bodies of its
  issue joined with \<open><|||||>\<close>; two comments a and b give \<open>a<|||||>b\<close>, no
  comments give the empty string.
\<close>

theorem comments_joined:
  assumes "extract_gh_repo_issues w og (Some names) tok path = (Inr result, s)"
    and "d \<in> set result"
  shows "(\<exists>rn \<in> set names. \<exists>i \<in> set (repo_issues w og rn). \<exists>bodies.
            get_comments i = Inr bodies \<and> d = issue_record rn i \<and>
            comments d = join ''<|||||>'' bodies) \<and>
         join ''<|||||>'' [''a'', ''b''] = ''a<|||||>b'' \<and>
         join ''<|||||>'' [] = []"
proof -
  from assms obtain rn i bodies where o: "rn \<in> set names" "i \<in> set (repo_issues w og rn)"
    "get_comments i = Inr bodies" "d = make_issue_data rn i (join delimiter bodies)"
    by (rule extract_record_origin)
  then have "d = issue_record rn i" "comments d = join ''<|||||>'' bodies"
    by (simp_all add: issue_record_def bodies_of_def make_issue_data_def delimiter_def)
  with o(1,2,3) show ?thesis by auto
qed

theorem comments_joined_witness:
  "extract_gh_repo_issues
     (acme (stream_of [an_issue 7 (Inr [''a'', ''b'']), an_issue 8 (Inr [])]))
     (Some ''acme'') (Some [''widgets'']) (Some ''t'') ''ckpt'' =
   (Inr [issue_record ''widgets'' (an_issue 7 (Inr [''a'', ''b''])),
         issue_record ''widgets'' (an_issue 8 (Inr []))],
    \<lparr>all_issues = [issue_record ''widgets'' (an_issue 7 (Inr [''a'', ''b''])),
                   issue_record ''widgets'' (an_issue 8 (Inr []))],
     trace = [AuthToken (Some ''t'') None, GetRepo ''acme/widgets'' None, TotalCount (Inr 2),
              GetComments 7 (Inr [''a'', ''b'']), GetComments 8 (Inr [])]\<rparr>) \<and>
   comments (issue_record ''widgets'' (an_issue 7 (Inr [''a'', ''b'']))) = ''a<|||||>b'' \<and>
   comments (issue_record ''widgets'' (an_issue 8 (Inr []))) = []"
proof -
  let ?d = "issue_record ''widgets'' (an_issue 7 (Inr [''a'', ''b'']))"
  let ?e = "issue_record ''widgets'' (an_issue 8 (Inr []))"
  have run: "extract_gh_repo_issues
     (acme (stream_of [an_issue 7 (Inr [''a'', ''b'']), an_issue 8 (Inr [])]))
     (Some ''acme'') (Some [''widgets'']) (Some ''t'') ''ckpt'' =
   (Inr [?d, ?e],
    \<lparr>all_issues = [?d, ?e],
     trace = [AuthToken (Some ''t'') None, GetRepo ''acme/widgets'' None, TotalCount (Inr 2),
              GetComments 7 (Inr [''a'', ''b'']), GetComments 8 (Inr [])]\<rparr>)"
    by (simp add: run_defs an_issue_def)
  have mem: "?d \<in> set [?d, ?e]" by simp
  from comments_joined [OF run mem]
  have j: "join ''<|||||>'' [''a'', ''b''] = ''a<|||||>b''" "join ''<|||||>'' [] = []"
    by blast+
  have "comments ?d = join ''<|||||>'' [''a'', ''b'']" "comments ?e = join ''<|||||>'' []"
    by (simp_all add: issue_record_def bodies_of_def make_issue_data_def an_issue_def delimiter_def)
  with j run show ?thesis by simp
qed

text \<open>
  C7. When the comment fetch of the first issue is throttled, nothing has been
  appended yet, and saving the empty collection raises in the dataset library: no
  checkpoint is written, neither the rate-limit request nor the wait happens, and the
  exception ends the run.
\<close>

theorem first_issue_throttled_no_checkpoint:
  "extract_gh_repo_issues
     (acme (stream_of [an_issue 1 (Inl RateLimitExceededException), an_issue 2 (Inr [])]))
     (Some ''acme'') (Some [''widgets'']) (Some ''t'') ''ckpt'' =
   (Inl (OtherException ''SchemaInferenceError''),
    \<lparr>all_issues = [],
     trace = [AuthToken (Some ''t'') None, GetRepo ''acme/widgets'' None, TotalCount (Inr 2),
              GetComments 1 (Inl RateLimitExceededException),
              SaveToDisk ''ckpt'' [] (Some (OtherException ''SchemaInferenceError''))]\<rparr>)"
  by (simp add: run_defs an_issue_def)



text \<open>
  C9, as the specification states it, fails. Without \<open>--org\<close> no configuration error
  is raised: the client is built and the repository None/widgets is requested from the
  service.
\<close>

theorem missing_org_reaches_network:
  "main (acme StopIteration) [Repos ''widgets'' [], GhToken ''t''] =
     (Some (OtherException ''UnknownObjectException''),
      \<lparr>all_issues = [],
       trace = [AuthToken (Some ''t'') None,
                GetRepo ''None/widgets'' (Some (OtherException ''UnknownObjectException''))]\<rparr>)"
  by (simp add: main_def parse_args_def run_defs)

text \<open>
  C9, amended. Without \<open>--repos\<close> the run ends with \<^verbatim>\<open>TypeError\<close> before anything is
  called. Without \<open>--gh_token\<close> (and with a repository list) it ends with
  \<^verbatim>\<open>AssertionError\<close> in the client's token constructor, the only call made: no
  request goes out. A missing organization alone is not detected: the client is built
  and the first repository is requested under the name None.
\<close>

theorem missing_configuration:
  "(repos (parse_args argv) = None \<longrightarrow>
      main w argv = (Some TypeError, \<lparr>all_issues = [], trace = []\<rparr>)) \<and>
   (repos (parse_args argv) = Some (rn # rest) \<longrightarrow> gh_token (parse_args argv) = None \<longrightarrow>
      main w argv =
        (Some AssertionError,
         \<lparr>all_issues = [], trace = [AuthToken None (Some AssertionError)]\<rparr>)) \<and>
   (repos (parse_args argv) = Some (rn # rest) \<longrightarrow> gh_token (parse_args argv) = Some t \<longrightarrow>
    t \<noteq> [] \<longrightarrow> org (parse_args argv) = None \<longrightarrow>
      (\<exists>x u. trace (snd (main w argv)) =
         AuthToken (Some t) None # GetRepo (''None/'' @ rn) x # u))"
proof (intro conjI impI)
  assume "repos (parse_args argv) = None"
  then show "main w argv = (Some TypeError, \<lparr>all_issues = [], trace = []\<rparr>)"
    by (simp add: main_def extract_gh_repo_issues_def start_def)
next
  assume "repos (parse_args argv) = Some (rn # rest)" and "gh_token (parse_args argv) = None"
  then show "main w argv =
        (Some AssertionError,
         \<lparr>all_issues = [], trace = [AuthToken None (Some AssertionError)]\<rparr>)"
    by (simp add: main_def extract_gh_repo_issues_def start_def collect_repo_def
          auth_token_def note_call_def Let_def)
next
  let ?a = "parse_args argv"
  assume names: "repos ?a = Some (rn # rest)" and tok: "gh_token ?a = Some t"
    and t: "t \<noteq> []" and og: "org ?a = None"
  from t have auth: "auth_token (Some t) = None" by (simp add: auth_token_def)
  obtain res s where run:
    "extract_gh_repo_issues w None (Some (rn # rest)) (Some t) ''./hf_repo_issues'' = (res, s)"
    by (cases "extract_gh_repo_issues w None (Some (rn # rest)) (Some t) ''./hf_repo_issues''")
  from extract_starts [OF run] auth obtain x u where
    tr: "trace s = AuthToken (Some t) None # GetRepo (full_name None rn) x # u"
    by auto
  from run names tok og have "trace (snd (main w argv)) = trace s \<or>
      (\<exists>ev. trace (snd (main w argv)) = trace s @ [ev])"
    by (cases res) (simp_all add: main_def note_call_def Let_def)
  with tr show "\<exists>x u. trace (snd (main w argv)) =
         AuthToken (Some t) None # GetRepo (''None/'' @ rn) x # u"
    by (auto simp: full_name_def str_of_def)
qed

theorem missing_configuration_witness:
  "repos (parse_args [Org ''acme'', GhToken ''t'']) = None \<and>
   main (acme StopIteration) [Org ''acme'', GhToken ''t''] =
     (Some TypeError, \<lparr>all_issues = [], trace = []\<rparr>) \<and>
   repos (parse_args [Org ''acme'', Repos ''widgets'' []]) = Some [''widgets''] \<and>
   gh_token (parse_args [Org ''acme'', Repos ''widgets'' []]) = None \<and>
   main (acme StopIteration) [Org ''acme'', Repos ''widgets'' []] =
     (Some AssertionError,
      \<lparr>all_issues = [], trace = [AuthToken None (Some AssertionError)]\<rparr>) \<and>
   repos (parse_args [Repos ''widgets'' [], GhToken ''t'']) = Some [''widgets''] \<and>
   gh_token (parse_args [Repos ''widgets'' [], GhToken ''t'']) = Some ''t'' \<and>
   org (parse_args [Repos ''widgets'' [], GhToken ''t'']) = None \<and>
   (\<exists>x u. trace (snd (main (acme StopIteration) [Repos ''widgets'' [], GhToken ''t''])) =
      AuthToken (Some ''t'') None # GetRepo ''None/widgets'' x # u)"
proof -
  have a: "repos (parse_args [Org ''acme'', GhToken ''t'']) = None"
    by (simp add: parse_args_def)
  have b: "repos (parse_args [Org ''acme'', Repos ''widgets'' []]) = Some [''widgets'']"
    "gh_token (parse_args [Org ''acme'', Repos ''widgets'' []]) = None"
    by (simp_all add: parse_args_def)
  have c: "repos (parse_args [Repos ''widgets'' [], GhToken ''t'']) = Some [''widgets'']"
    "gh_token (parse_args [Repos ''widgets'' [], GhToken ''t'']) = Some ''t''"
    "org (parse_args [Repos ''widgets'' [], GhToken ''t'']) = None"
    by (simp_all add: parse_args_def)
  have ne: "''t'' \<noteq> []" by simp
  from missing_configuration [where argv = "[Org ''acme'', GhToken ''t'']"
      and w = "acme StopIteration"] a
  have 1: "main (acme StopIteration) [Org ''acme'', GhToken ''t''] =
     (Some TypeError, \<lparr>all_issues = [], trace = []\<rparr>)" by blast
  from missing_configuration [where argv = "[Org ''acme'', Repos ''widgets'' []]"
      and w = "acme StopIteration" and rn = "''widgets''" and rest = "[]"] b
  have 2: "main (acme StopIteration) [Org ''acme'', Repos ''widgets'' []] =
     (Some AssertionError,
      \<lparr>all_issues = [], trace = [AuthToken None (Some AssertionError)]\<rparr>)" by blast
  from missing_configuration [where argv = "[Repos ''widgets'' [], GhToken ''t'']"
      and w = "acme StopIteration" and rn = "''widgets''" and rest = "[]" and t = "''t''"]
    c ne
  have 3: "\<exists>x u. trace (snd (main (acme StopIteration) [Repos ''widgets'' [], GhToken ''t''])) =
      AuthToken (Some ''t'') None # GetRepo (''None/'' @ ''widgets'') x # u"
    by blast
  then have 4: "\<exists>x u. trace (snd (main (acme StopIteration) [Repos ''widgets'' [], GhToken ''t''])) =
      AuthToken (Some ''t'') None # GetRepo ''None/widgets'' x # u"
    by simp
  from a b c 1 2 4 show ?thesis by blast
qed

text \<open>
  C10. Called with an empty repository list, the function returns an empty collection
  and calls no collaborator at all: the trace stays empty (no client is built, no
  repository, issue or comment request is made, nothing is saved).
\<close>

theorem extract_empty_repos:
  "extract_gh_repo_issues w org_name (Some []) token path =
     (Inr [], \<lparr>all_issues = [], trace = []\<rparr>)"
  by (simp add: extract_gh_repo_issues_def start_def)

end
